theory Spec2Isabelle
  imports Complex_Main "HOL-Library.Sublist" "HOL-Library.AList"
begin

section \<open>Strings and paths\<close>

text \<open>
  Python strings are modelled as \<open>string\<close> (lists of 8-bit characters); \<open>str.lower\<close> is
  modelled on the ASCII letters. \<open>a in b\<close> on strings is the contiguous-substring test
  \<^const>\<open>sublist\<close>.
\<close>

definition lower_char :: "char \<Rightarrow> char" where
  "lower_char c =
     (let n = (of_char c :: nat) in if 65 \<le> n \<and> n \<le> 90 then char_of (n + 32) else c)"

definition lower :: "string \<Rightarrow> string" where
  "lower s = map lower_char s"

definition str_in :: "string \<Rightarrow> string \<Rightarrow> bool" where
  "str_in a b = sublist a b"

text \<open>\<open>sep.join(xs)\<close>.\<close>

fun join :: "string \<Rightarrow> string list \<Rightarrow> string" where
  "join sep [] = []"
| "join sep [x] = x"
| "join sep (x # y # ys) = x @ sep @ join sep (y # ys)"

text \<open>\<open>s.split(c)\<close> for a one-character separator.\<close>

fun split_on :: "char \<Rightarrow> string \<Rightarrow> string list" where
  "split_on c [] = [[]]"
| "split_on c (x # xs) =
     (if x = c then [] # split_on c xs
      else (case split_on c xs of [] \<Rightarrow> [[x]] | p # ps \<Rightarrow> (x # p) # ps))"

text \<open>
  \<open>pathlib.Path(p)\<close> on a POSIX system: the components of \<open>p\<close>, with empty components and
  single dots dropped; \<open>Path(p).name\<close> is the last component (empty when there is none),
  \<open>.suffix\<close> starts at the last dot of the name when that dot is neither its first nor
  its last character, and \<open>.stem\<close> is the name without the suffix.
\<close>

definition path_parts :: "string \<Rightarrow> string list" where
  "path_parts p = filter (\<lambda>s. s \<noteq> [] \<and> s \<noteq> ''.'') (split_on CHR ''/'' p)"

definition path_name :: "string \<Rightarrow> string" where
  "path_name p = (case rev (path_parts p) of [] \<Rightarrow> [] | n # _ \<Rightarrow> n)"

definition has_suffix :: "string \<Rightarrow> bool" where
  "has_suffix n =
     (let r = rev n;
          after = takeWhile (\<lambda>c. c \<noteq> CHR ''.'') r;
          rest = dropWhile (\<lambda>c. c \<noteq> CHR ''.'') r
      in rest \<noteq> [] \<and> tl rest \<noteq> [] \<and> after \<noteq> [])"

definition path_suffix :: "string \<Rightarrow> string" where
  "path_suffix p =
     (let n = path_name p in
      if has_suffix n then CHR ''.'' # rev (takeWhile (\<lambda>c. c \<noteq> CHR ''.'') (rev n)) else [])"

definition path_stem :: "string \<Rightarrow> string" where
  "path_stem p =
     (let n = path_name p in
      if has_suffix n then rev (tl (dropWhile (\<lambda>c. c \<noteq> CHR ''.'') (rev n))) else n)"

section \<open>The dependency graph (gilfoyle\_agent.py)\<close>

text \<open>
  One definition record as the extractors build it; the line-oriented fallback extractors
  build records without a \<open>signature\<close> key, which \<open>d.get('signature', '')\<close> reads as the
  empty string.
\<close>

record defn =
  name :: string
  kind :: string
  signature :: "string option"
  line :: nat

definition sig_text :: "defn \<Rightarrow> string" where
  "sig_text d = (case signature d of None \<Rightarrow> [] | Some s \<Rightarrow> s)"

record signature_change =
  sc_name :: string
  sc_old :: string
  sc_new :: string

record graph_entry =
  e_imports :: "string list"
  e_definitions :: "defn list"
  e_calls :: "string list"
  e_language :: string
  e_signature_changes :: "signature_change list"

text \<open>
  \<open>self.dependency_graph\<close> is a Python dict: an association list in insertion order, in
  which \<^const>\<open>AList.update\<close> is the assignment \<open>d[k] = v\<close> (an existing key keeps its
  place, a new key goes last).
\<close>

type_synonym dependency_graph = "(string \<times> graph_entry) list"

text \<open>What \<open>parse_with_treesitter\<close> returns for a file.\<close>

record parsed =
  p_imports :: "string list"
  p_definitions :: "defn list"
  p_calls :: "string list"

definition lang_map :: "(string \<times> string) list" where
  "lang_map =
    [(''.py'', ''python''), (''.swift'', ''swift''), (''.ts'', ''typescript''),
     (''.tsx'', ''typescript''), (''.js'', ''javascript''), (''.jsx'', ''javascript''),
     (''.go'', ''go''), (''.rs'', ''rust''), (''.java'', ''java''), (''.c'', ''c''),
     (''.cpp'', ''cpp''), (''.h'', ''c''), (''.hpp'', ''cpp''), (''.rb'', ''ruby''),
     (''.php'', ''php'')]"

definition detect_language :: "string \<Rightarrow> string" where
  "detect_language filepath =
     (case map_of lang_map (lower (path_suffix filepath)) of
        None \<Rightarrow> ''unknown'' | Some l \<Rightarrow> l)"

subsection \<open>Signature changes\<close>

text \<open>The dict comprehension \<open>{d['name']: d.get('signature', '') for d in defs}\<close>.\<close>

definition sigs_dict :: "defn list \<Rightarrow> (string \<times> string) list" where
  "sigs_dict ds = foldl (\<lambda>m d. AList.update (name d) (sig_text d) m) [] ds"

text \<open>The loop over \<open>new_sigs.items()\<close>.\<close>

fun changed_sigs :: "(string \<times> string) list \<Rightarrow> (string \<times> string) list \<Rightarrow> signature_change list"
  where
  "changed_sigs old_sigs [] = []"
| "changed_sigs old_sigs ((n, new_sig) # rest) =
     (case map_of old_sigs n of
        None \<Rightarrow> changed_sigs old_sigs rest
      | Some old_sig \<Rightarrow>
          if old_sig \<noteq> new_sig
          then \<lparr>sc_name = n, sc_old = old_sig, sc_new = new_sig\<rparr> # changed_sigs old_sigs rest
          else changed_sigs old_sigs rest)"

text \<open>
  \<open>detect_signature_changes\<close>; the extraction of the file's current text is the
  parameter \<open>parse\<close> (tree-sitter and the file system are outside the program).
\<close>

definition detect_signature_changes ::
  "(string \<Rightarrow> parsed) \<Rightarrow> dependency_graph \<Rightarrow> string \<Rightarrow> signature_change list" where
  "detect_signature_changes parse g filepath =
     (case map_of g filepath of
        None \<Rightarrow> []
      | Some old_data \<Rightarrow>
          changed_sigs (sigs_dict (e_definitions old_data))
            (sigs_dict (p_definitions (parse filepath))))"

definition analyze_dependencies ::
  "(string \<Rightarrow> parsed) \<Rightarrow> dependency_graph \<Rightarrow> string \<Rightarrow> dependency_graph" where
  "analyze_dependencies parse g filepath =
     (let p = parse filepath;
          sig_changes = detect_signature_changes parse g filepath
      in AList.update filepath
           \<lparr>e_imports = p_imports p, e_definitions = p_definitions p, e_calls = p_calls p,
            e_language = detect_language filepath, e_signature_changes = sig_changes\<rparr> g)"

subsection \<open>Impact analysis\<close>

record impact =
  reasons :: "string list"
  severity :: string

text \<open>
  The body of the loop of \<open>find_impacted_files\<close> for one other file. Python's sets
  \<open>changed_def_names\<close>, \<open>called_funcs\<close> and \<open>sig_changed_funcs\<close> are lists without
  repetitions here; the order in which \<open>", ".join\<close> enumerates a set is not fixed by
  Python, and no statement below depends on it.
\<close>

definition called_funcs :: "string list \<Rightarrow> graph_entry \<Rightarrow> string list" where
  "called_funcs changed_def_names data =
     filter (\<lambda>n. n \<in> set (e_calls data)) (remdups changed_def_names)"

definition file_reasons ::
  "string \<Rightarrow> string list \<Rightarrow> signature_change list \<Rightarrow> graph_entry \<Rightarrow> string list" where
  "file_reasons changed_file changed_def_names sig_changes data =
     (let changed_basename = path_stem changed_file;
          r_imports =
            (if list_ex (\<lambda>imp. str_in (lower changed_basename) (lower imp)) (e_imports data)
             then [''imports''] else []);
          called = called_funcs changed_def_names data;
          sig_changed_funcs = map sc_name sig_changes;
          modified = filter (\<lambda>n. n \<in> set sig_changed_funcs) called;
          r_calls =
            (if called \<noteq> [] then
               (if modified \<noteq> [] then [''calls_modified: '' @ join '', '' modified]
                else [''calls: '' @ join '', '' called])
             else [])
      in r_imports @ r_calls)"

definition severity_of :: "string list \<Rightarrow> string" where
  "severity_of rs = (if list_ex (\<lambda>r. str_in ''modified'' r) rs then ''high'' else ''medium'')"

fun impact_loop ::
  "string \<Rightarrow> string list \<Rightarrow> signature_change list \<Rightarrow> dependency_graph \<Rightarrow>
   (string \<times> impact) list \<Rightarrow> (string \<times> impact) list" where
  "impact_loop changed_file names scs [] impacted = impacted"
| "impact_loop changed_file names scs ((filepath, data) # rest) impacted =
     (if filepath = changed_file then impact_loop changed_file names scs rest impacted
      else
        (let rs = file_reasons changed_file names scs data in
         if rs \<noteq> []
         then impact_loop changed_file names scs rest
                (AList.update filepath \<lparr>reasons = rs, severity = severity_of rs\<rparr> impacted)
         else impact_loop changed_file names scs rest impacted))"

text \<open>
  \<open>find_impacted_files\<close> returns the impact dict; it also analyses the changed file when
  the graph does not know it yet, so the model returns the graph as well.
\<close>

definition find_impacted_files ::
  "(string \<Rightarrow> parsed) \<Rightarrow> dependency_graph \<Rightarrow> string \<Rightarrow>
   (string \<times> impact) list \<times> dependency_graph" where
  "find_impacted_files parse g changed_file =
     (let g1 = (if map_of g changed_file = None
                then analyze_dependencies parse g changed_file else g);
          changed_def_names =
            (case map_of g1 changed_file of None \<Rightarrow> []
             | Some d \<Rightarrow> map name (e_definitions d));
          sig_changes =
            (case map_of g1 changed_file of None \<Rightarrow> []
             | Some d \<Rightarrow> e_signature_changes d)
      in (impact_loop changed_file changed_def_names sig_changes g1 [], g1))"

subsection \<open>Cycle detection\<close>

text \<open>
  \<open>detect_circular_dependencies\<close>. An import identifier \<open>neighbor\<close> leads to every key
  \<open>filepath\<close> of the graph with \<open>neighbor in filepath or Path(filepath).stem == neighbor\<close>;
  \<^term>\<open>targets g node\<close> lists, in the order of the two nested \<open>for\<close> loops, the keys
  that the body of the loops is run for. The recursion of \<open>has_cycle\<close> is bounded by a
  fuel argument (the recursion depth); \<open>None\<close> is fuel exhaustion, which
  \<open>has_cycle_total\<close> below shows never to happen with the fuel \<open>length g\<close> that
  \<open>detect_circular_dependencies\<close> gives. The sets \<open>visited\<close> and \<open>rec_stack\<close> are
  mutated in place by the source and threaded through here; on a \<open>True\<close> result the
  source returns at once and leaves the node on \<open>rec_stack\<close>.
\<close>

definition resolves :: "string \<Rightarrow> string \<Rightarrow> bool" where
  "resolves neighbor filepath = (str_in neighbor filepath \<or> path_stem filepath = neighbor)"

definition targets :: "dependency_graph \<Rightarrow> string \<Rightarrow> string list" where
  "targets g node =
     (case map_of g node of
        None \<Rightarrow> []
      | Some data \<Rightarrow>
          concat (map (\<lambda>neighbor. filter (resolves neighbor) (map fst g)) (e_imports data)))"

fun has_cycle ::
    "nat \<Rightarrow> dependency_graph \<Rightarrow> string \<Rightarrow> string set \<times> string set \<Rightarrow>
     (bool \<times> string set \<times> string set) option"
  and visit_targets ::
    "nat \<Rightarrow> dependency_graph \<Rightarrow> string list \<Rightarrow> string set \<times> string set \<Rightarrow>
     (bool \<times> string set \<times> string set) option"
  where
  "has_cycle 0 g node st = None"
| "has_cycle (Suc n) g node (visited, rec_stack) =
     (case visit_targets n g (targets g node) (insert node visited, insert node rec_stack) of
        None \<Rightarrow> None
      | Some (True, st') \<Rightarrow> Some (True, st')
      | Some (False, (v, r)) \<Rightarrow> Some (False, (v, r - {node})))"
| "visit_targets n g [] st = Some (False, st)"
| "visit_targets n g (filepath # rest) (visited, rec_stack) =
     (if filepath \<notin> visited then
        (case has_cycle n g filepath (visited, rec_stack) of
           None \<Rightarrow> None
         | Some (True, st') \<Rightarrow> Some (True, st')
         | Some (False, st') \<Rightarrow> visit_targets n g rest st')
      else if filepath \<in> rec_stack then Some (True, (visited, rec_stack))
      else visit_targets n g rest (visited, rec_stack))"

text \<open>
  The outer loop: the outer \<open>visited\<close> set is created empty and never added to, and every
  start node gets fresh sets.
\<close>

fun detect_loop :: "dependency_graph \<Rightarrow> string set \<Rightarrow> string list \<Rightarrow> bool option" where
  "detect_loop g visited [] = Some False"
| "detect_loop g visited (node # rest) =
     (if node \<notin> visited then
        (case has_cycle (length g) g node ({}, {}) of
           None \<Rightarrow> None
         | Some (True, _) \<Rightarrow> Some True
         | Some (False, _) \<Rightarrow> detect_loop g visited rest)
      else detect_loop g visited rest)"

definition detect_circular_dependencies :: "dependency_graph \<Rightarrow> bool option" where
  "detect_circular_dependencies g = detect_loop g {} (map fst g)"

text \<open>
  The import rule of \<open>find_impacted_files\<close>, as an edge relation: \<open>a\<close> imports \<open>b\<close>
  when \<open>a\<close> would get the reason \<open>imports\<close> for a change of \<open>b\<close>.
\<close>

definition imports_edge :: "dependency_graph \<Rightarrow> string \<Rightarrow> string \<Rightarrow> bool" where
  "imports_edge g a b =
     (case map_of g a of None \<Rightarrow> False
      | Some data \<Rightarrow> ''imports'' \<in> set (file_reasons b [] [] data))"

subsection \<open>Risk level\<close>

text \<open>
  The fields of \<open>BuildHealthMonitor\<close> that \<open>calculate_risk_level\<close> reads, and the
  function itself; it returns the level with an emoji, of which the model keeps the level.
\<close>

record monitor =
  dependency_graph :: dependency_graph
  changed_files :: "string list"
  file_impacts :: "(string \<times> (string \<times> impact) list) list"





section \<open>Change detection and the execution plan (smart\_orchestrator.py)\<close>

text \<open>
  The file system as one scan sees it. \<open>entries\<close> is what \<open>project_root.rglob("*")\<close>
  yields; a file's \<open>stat\<close> and \<open>read_bytes\<close> are \<open>None\<close> when the call raises. Times
  (\<open>st_mtime\<close>, \<open>time.time()\<close>) are Python floats, which the code only compares and
  formats; they are reals here. \<open>hashlib.md5(...).hexdigest()\<close> and the formatting of
  \<open>f"{st_size}_{st_mtime}"\<close> are library functions, taken as the parameter \<open>lib\<close>.
\<close>

datatype py_error = OSError

record py_lib =
  md5_hexdigest :: "string \<Rightarrow> string"
  size_mtime_str :: "nat \<Rightarrow> real \<Rightarrow> string"

record fs_file =
  rel_parts :: "string list"
  is_file :: bool
  stat :: "(nat \<times> real) option"
  read_bytes :: "string option"

record file_system =
  root_parts :: "string list"
  root_mtime :: "real option"
  entries :: "fs_file list"

record orchestrator =
  last_scan_mtime :: "real option"
  last_run :: "real option"
  file_hashes :: "string \<rightharpoonup> string"

text \<open>
  \<open>_hash_file\<close>: \<^term>\<open>compute_hash\<close> is the body of its \<open>try\<close>, and the bare
  \<open>except\<close> turns every failure into the string \<open>error\<close>.
\<close>

definition compute_hash :: "py_lib \<Rightarrow> fs_file \<Rightarrow> py_error + string" where
  "compute_hash lib f =
     (case stat f of
        None \<Rightarrow> Inl OSError
      | Some (st_size, st_mtime) \<Rightarrow>
          if st_size > 1000000 then Inr (size_mtime_str lib st_size st_mtime)
          else (case read_bytes f of
                  None \<Rightarrow> Inl OSError
                | Some content \<Rightarrow> Inr (md5_hexdigest lib content)))"

definition hash_file :: "py_lib \<Rightarrow> fs_file \<Rightarrow> string" where
  "hash_file lib f = (case compute_hash lib f of Inl e \<Rightarrow> ''error'' | Inr h \<Rightarrow> h)"

definition skipped :: "string list \<Rightarrow> bool" where
  "skipped parts =
     (if list_ex (\<lambda>part. prefix ''.'' part) parts \<and> \<not> list_ex (\<lambda>part. part = ''.claude'') parts
      then True
      else if ''node_modules'' \<in> set parts then True
      else if ''__pycache__'' \<in> set parts then True
      else False)"

definition rel_path :: "fs_file \<Rightarrow> string" where
  "rel_path f = join ''/'' (rel_parts f)"

text \<open>\<open>self.cache.get("last_scan_mtime", 0)\<close>.\<close>

definition last_scan_time :: "orchestrator \<Rightarrow> real" where
  "last_scan_time st = (case last_scan_mtime st of None \<Rightarrow> 0 | Some t \<Rightarrow> t)"

text \<open>
  The loop of \<open>get_changed_files\<close> over the entries. \<open>_hash_file\<close> never raises and
  \<open>relative_to\<close> cannot fail on a path that \<open>rglob\<close> produced under the root, so the
  \<open>except\<close> branch of the loop body (add the file to \<open>changed\<close>) is never taken and has
  no counterpart here. The returned set of \<open>Path\<close> objects is the set of their
  components below the root.
\<close>

fun scan ::
  "py_lib \<Rightarrow> string list \<Rightarrow> fs_file list \<Rightarrow> string list set \<times> (string \<rightharpoonup> string) \<Rightarrow>
   string list set \<times> (string \<rightharpoonup> string)" where
  "scan lib base [] (changed, hashes) = (changed, hashes)"
| "scan lib base (f # rest) (changed, hashes) =
     (if \<not> is_file f then scan lib base rest (changed, hashes)
      else if skipped (base @ rel_parts f) then scan lib base rest (changed, hashes)
      else
        (let file_hash = hash_file lib f in
         if hashes (rel_path f) \<noteq> Some file_hash
         then scan lib base rest (insert (rel_parts f) changed, hashes(rel_path f \<mapsto> file_hash))
         else scan lib base rest (changed, hashes)))"

definition get_changed_files ::
  "py_lib \<Rightarrow> file_system \<Rightarrow> orchestrator \<Rightarrow> py_error + (string list set \<times> orchestrator)" where
  "get_changed_files lib fs st =
     (case root_mtime fs of
        None \<Rightarrow> Inl OSError
      | Some project_mtime \<Rightarrow>
          (if project_mtime \<le> last_scan_time st then Inr ({}, st)
           else
             (case scan lib (root_parts fs) (entries fs) ({}, file_hashes st) of
                (changed, hashes) \<Rightarrow>
                  Inr (changed, st\<lparr>last_scan_mtime := Some project_mtime,
                                     file_hashes := hashes\<rparr>))))"

text \<open>
  \<open>should_skip_hooks\<close> (which may run a change scan through \<open>has_file_changes\<close>),
  the file count of \<open>get_project_size\<close> (its line count does not reach the timeout),
  \<open>get_adaptive_timeout\<close>, and \<open>get_execution_plan\<close> with the fields \<open>should_run\<close>,
  \<open>timeout\<close> and \<open>changed_files\<close> (here \<open>n_changed_files\<close>) of the plan; the choice of
  agents and the light mode have no influence on those and are left out, as are the
  diagnostic cache entries. \<open>now\<close> is the reading of \<open>time.time()\<close>.
\<close>

definition is_space :: "char \<Rightarrow> bool" where
  "is_space c = (c \<in> set [CHR '' '', CHR 0x09, CHR 0x0A, CHR 0x0B, CHR 0x0C, CHR 0x0D])"

definition strip :: "string \<Rightarrow> string" where
  "strip s = rev (dropWhile is_space (rev (dropWhile is_space s)))"





definition size_skipped :: "string list \<Rightarrow> bool" where
  "size_skipped parts =
     (if list_ex (\<lambda>part. prefix ''.'' part) parts \<and> \<not> list_ex (\<lambda>part. part = ''.claude'') parts
      then True
      else if ''node_modules'' \<in> set parts then True
      else False)"

definition project_file_count :: "file_system \<Rightarrow> nat" where
  "project_file_count fs =
     length (filter (\<lambda>f. is_file f \<and> \<not> size_skipped (root_parts fs @ rel_parts f)) (entries fs))"

definition TIMEOUT_SMALL :: nat where "TIMEOUT_SMALL = 60"
definition TIMEOUT_MEDIUM :: nat where "TIMEOUT_MEDIUM = 120"
definition TIMEOUT_LARGE :: nat where "TIMEOUT_LARGE = 180"

definition get_adaptive_timeout :: "file_system \<Rightarrow> nat" where
  "get_adaptive_timeout fs =
     (let file_count = project_file_count fs in
      if file_count < 100 then TIMEOUT_SMALL
      else if file_count < 500 then TIMEOUT_MEDIUM
      else TIMEOUT_LARGE)"





section \<open>The agent lock (agent\_lock.py)\<close>

text \<open>
  What the operating system keeps for the lock file of one worker,
  \<open>LOCK_DIR/<name>.lock\<close>: the inode the path is linked to (if the file exists), the
  lines of every inode, and for every inode the open file description that holds the
  exclusive \<open>flock\<close> on it. A lock taken with \<open>flock\<close> belongs to the inode, not to the
  path: it survives \<open>unlink\<close>, and a file created later under the same name is a new
  inode. An \<open>AgentLock\<close> object is identified by \<open>lock_id\<close>, which also names the file
  description it opens; \<open>fd\<close> is the inode of its open file.
\<close>

record lock_file =
  linked :: "nat option"
  inode_lines :: "nat \<Rightarrow> string list"
  flock_owner :: "nat \<Rightarrow> nat option"
  next_inode :: nat

record agent_lock =
  lock_id :: nat
  fd :: "nat option"

record stamp =
  pid_text :: string
  time_text :: string

text \<open>
  \<open>acquire\<close> with \<open>timeout = 0\<close> (the non-blocking policy), in its three system calls:
  \<open>open(lock_file, 'w')\<close>, which creates or truncates the file (rebinding \<open>self.fd\<close>
  closes a file the object still had open); \<open>flock(LOCK_EX | LOCK_NB)\<close>, which fails
  with \<open>BlockingIOError\<close> when another file description holds the lock, upon which the
  file is closed and \<open>False\<close> returned; and the write of the process id and the time.
  \<open>release\<close> unlocks and closes, then unlinks the path if it exists. Failures of
  \<open>open\<close>, \<open>write\<close> and \<open>unlink\<close> themselves are not modelled.
\<close>

definition close_fd :: "agent_lock \<Rightarrow> lock_file \<Rightarrow> lock_file" where
  "close_fd L s =
     (case fd L of
        None \<Rightarrow> s
      | Some i \<Rightarrow>
          if flock_owner s i = Some (lock_id L)
          then s\<lparr>flock_owner := (flock_owner s)(i := None)\<rparr> else s)"

definition acquire_open :: "agent_lock \<Rightarrow> lock_file \<Rightarrow> agent_lock \<times> lock_file" where
  "acquire_open L s =
     (let s0 = close_fd L s in
      case linked s0 of
        Some i \<Rightarrow> (L\<lparr>fd := Some i\<rparr>, s0\<lparr>inode_lines := (inode_lines s0)(i := [])\<rparr>)
      | None \<Rightarrow>
          (let i = next_inode s0 in
           (L\<lparr>fd := Some i\<rparr>,
            s0\<lparr>linked := Some i, inode_lines := (inode_lines s0)(i := []),
               next_inode := Suc i\<rparr>)))"

definition acquire_flock :: "agent_lock \<Rightarrow> lock_file \<Rightarrow> bool \<times> agent_lock \<times> lock_file" where
  "acquire_flock L s =
     (case fd L of
        None \<Rightarrow> (False, L, s)
      | Some i \<Rightarrow>
          (case flock_owner s i of
             None \<Rightarrow> (True, L, s\<lparr>flock_owner := (flock_owner s)(i := Some (lock_id L))\<rparr>)
           | Some owner \<Rightarrow>
               if owner = lock_id L then (True, L, s) else (False, L\<lparr>fd := None\<rparr>, s)))"

definition acquire_write :: "stamp \<Rightarrow> agent_lock \<Rightarrow> lock_file \<Rightarrow> lock_file" where
  "acquire_write st L s =
     (case fd L of
        None \<Rightarrow> s
      | Some i \<Rightarrow>
          s\<lparr>inode_lines := (inode_lines s)(i := [pid_text st @ [CHR 0x0A], time_text st @ [CHR 0x0A]])\<rparr>)"

definition acquire :: "stamp \<Rightarrow> agent_lock \<Rightarrow> lock_file \<Rightarrow> bool \<times> agent_lock \<times> lock_file" where
  "acquire st L s =
     (case acquire_open L s of
        (L1, s1) \<Rightarrow>
          (case acquire_flock L1 s1 of
             (True, L2, s2) \<Rightarrow> (True, L2, acquire_write st L2 s2)
           | (False, L2, s2) \<Rightarrow> (False, L2, s2)))"

definition release_unlock :: "agent_lock \<Rightarrow> lock_file \<Rightarrow> agent_lock \<times> lock_file" where
  "release_unlock L s = (L\<lparr>fd := None\<rparr>, close_fd L s)"

definition release_unlink :: "lock_file \<Rightarrow> lock_file" where
  "release_unlink s = (if linked s \<noteq> None then s\<lparr>linked := None\<rparr> else s)"

definition release :: "agent_lock \<Rightarrow> lock_file \<Rightarrow> agent_lock \<times> lock_file" where
  "release L s =
     (case fd L of
        None \<Rightarrow> (L, s)
      | Some i \<Rightarrow> (case release_unlock L s of (L1, s1) \<Rightarrow> (L1, release_unlink s1)))"

text \<open>
  \<open>cleanup_stale_locks\<close>, for one lock file and for the directory. The probe takes the
  lock and gives it back at once, which leaves the state as it was; \<open>float_of\<close> is
  Python's \<open>float\<close> on a string (\<open>None\<close> for \<open>ValueError\<close>, which the outer \<open>except\<close>
  reports and passes over), \<open>now\<close> the reading of \<open>time.time()\<close>.
\<close>

definition cleanup_one :: "(string \<Rightarrow> real option) \<Rightarrow> real \<Rightarrow> real \<Rightarrow> lock_file \<Rightarrow> lock_file" where
  "cleanup_one float_of now max_age_seconds s =
     (case linked s of
        None \<Rightarrow> s
      | Some i \<Rightarrow>
          (case flock_owner s i of
             Some owner \<Rightarrow> s
           | None \<Rightarrow>
               (let ls = inode_lines s i in
                if length ls \<ge> 2 then
                  (case float_of (strip (ls ! 1)) of
                     None \<Rightarrow> s
                   | Some timestamp \<Rightarrow>
                       (let age = now - timestamp in
                        if age > max_age_seconds then s\<lparr>linked := None\<rparr> else s))
                else s)))"

definition cleanup_stale_locks ::
  "(string \<Rightarrow> real option) \<Rightarrow> real \<Rightarrow> real \<Rightarrow> (string \<times> lock_file) list \<Rightarrow>
   (string \<times> lock_file) list" where
  "cleanup_stale_locks float_of now max_age_seconds locks =
     map (\<lambda>(worker, s). (worker, cleanup_one float_of now max_age_seconds s)) locks"

text \<open>
  The notions of the claims about reclamation: a live holder, the time recorded in the
  second line of the record, and a record that has no live holder and a recorded age above
  the threshold.
\<close>

definition has_live_holder :: "lock_file \<Rightarrow> bool" where
  "has_live_holder s = (case linked s of None \<Rightarrow> False | Some i \<Rightarrow> flock_owner s i \<noteq> None)"

definition recorded_time :: "(string \<Rightarrow> real option) \<Rightarrow> lock_file \<Rightarrow> real option" where
  "recorded_time float_of s =
     (case linked s of
        None \<Rightarrow> None
      | Some i \<Rightarrow>
          (case inode_lines s i of
             pid_line # time_line # rest \<Rightarrow> float_of (strip time_line)
           | _ \<Rightarrow> None))"

definition reclaimable :: "(string \<Rightarrow> real option) \<Rightarrow> real \<Rightarrow> real \<Rightarrow> lock_file \<Rightarrow> bool" where
  "reclaimable float_of now max_age s =
     (linked s \<noteq> None \<and> \<not> has_live_holder s \<and>
      (case recorded_time float_of s of None \<Rightarrow> False | Some t \<Rightarrow> now - t > max_age))"

text \<open>
  Two \<open>AgentLock\<close> objects whose \<open>acquire\<close> calls run concurrently: each call advances
  by one system call at a time, a schedule says whose turn it is, and \<^term>\<open>trace\<close>
  lists the states a schedule passes through.
\<close>

datatype stage = Ready | Opened | Locked | Done bool

record actor =
  obj :: agent_lock
  pos :: stage

definition step_acquire :: "stamp \<Rightarrow> actor \<Rightarrow> lock_file \<Rightarrow> actor \<times> lock_file" where
  "step_acquire st a s =
     (case pos a of
        Ready \<Rightarrow> (case acquire_open (obj a) s of (L, s') \<Rightarrow> (\<lparr>obj = L, pos = Opened\<rparr>, s'))
      | Opened \<Rightarrow>
          (case acquire_flock (obj a) s of
             (True, L, s') \<Rightarrow> (\<lparr>obj = L, pos = Locked\<rparr>, s')
           | (False, L, s') \<Rightarrow> (\<lparr>obj = L, pos = Done False\<rparr>, s'))
      | Locked \<Rightarrow> (\<lparr>obj = obj a, pos = Done True\<rparr>, acquire_write st (obj a) s)
      | Done b \<Rightarrow> (a, s))"

record two_acquirers =
  first :: actor
  second :: actor
  lockf :: lock_file

definition step_two :: "stamp \<Rightarrow> stamp \<Rightarrow> two_acquirers \<Rightarrow> bool \<Rightarrow> two_acquirers" where
  "step_two st1 st2 sys who =
     (if who then
        (case step_acquire st2 (second sys) (lockf sys) of
           (a, s) \<Rightarrow> sys\<lparr>second := a, lockf := s\<rparr>)
      else
        (case step_acquire st1 (first sys) (lockf sys) of
           (a, s) \<Rightarrow> sys\<lparr>first := a, lockf := s\<rparr>))"



definition holds :: "actor \<Rightarrow> lock_file \<Rightarrow> bool" where
  "holds a s =
     (case fd (obj a) of None \<Rightarrow> False | Some i \<Rightarrow> flock_owner s i = Some (lock_id (obj a)))"

definition one_winner :: "two_acquirers \<Rightarrow> bool" where
  "one_winner sys =
     ((pos (first sys) = Done True \<and> pos (second sys) = Done False) \<or>
      (pos (first sys) = Done False \<and> pos (second sys) = Done True))"

definition at_most_one_holder :: "two_acquirers \<Rightarrow> bool" where
  "at_most_one_holder sys =
     (\<not> (holds (first sys) (lockf sys) \<and> holds (second sys) (lockf sys)))"


definition start_two :: "agent_lock \<Rightarrow> agent_lock \<Rightarrow> lock_file \<Rightarrow> two_acquirers" where
  "start_two L1 L2 s =
     \<lparr>first = \<lparr>obj = L1, pos = Ready\<rparr>, second = \<lparr>obj = L2, pos = Ready\<rparr>, lockf = s\<rparr>"

section \<open>Example inputs\<close>

subsection \<open>Example graphs\<close>

definition no_parse :: "string \<Rightarrow> parsed" where
  "no_parse f = \<lparr>p_imports = [], p_definitions = [], p_calls = []\<rparr>"

definition def_helper :: defn where
  "def_helper =
     \<lparr>name = ''helper'', kind = ''function'', signature = Some ''helper(x)'', line = 1\<rparr>"

definition def_other :: defn where
  "def_other =
     \<lparr>name = ''other'', kind = ''function'', signature = Some ''other(x, y)'', line = 5\<rparr>"

definition entry_a :: graph_entry where
  "entry_a = \<lparr>e_imports = [], e_definitions = [def_helper], e_calls = [],
              e_language = ''python'', e_signature_changes = []\<rparr>"

definition entry_b :: graph_entry where
  "entry_b = \<lparr>e_imports = [], e_definitions = [], e_calls = [''helper''],
              e_language = ''python'', e_signature_changes = []\<rparr>"

definition graph_ab :: dependency_graph where
  "graph_ab = [(''A.py'', entry_a), (''B.py'', entry_b)]"

text \<open>
  \<open>A.py\<close> defines \<open>helper\<close> and \<open>other\<close>, only \<open>other\<close> changed its signature;
  \<open>B.py\<close> calls both.
\<close>

definition entry_a_other :: graph_entry where
  "entry_a_other =
     \<lparr>e_imports = [], e_definitions = [def_helper, def_other], e_calls = [],
      e_language = ''python'',
      e_signature_changes =
        [\<lparr>sc_name = ''other'', sc_old = ''other(x)'', sc_new = ''other(x, y)''\<rparr>]\<rparr>"

definition entry_b_other :: graph_entry where
  "entry_b_other = \<lparr>e_imports = [], e_definitions = [], e_calls = [''helper'', ''other''],
                    e_language = ''python'', e_signature_changes = []\<rparr>"

definition graph_ab_other :: dependency_graph where
  "graph_ab_other = [(''A.py'', entry_a_other), (''B.py'', entry_b_other)]"

text \<open>\<open>A.py\<close> after a change of the signature of \<open>helper\<close>.\<close>

definition entry_a_changed :: graph_entry where
  "entry_a_changed =
     \<lparr>e_imports = [], e_definitions = [def_helper], e_calls = [],
      e_language = ''python'',
      e_signature_changes =
        [\<lparr>sc_name = ''helper'', sc_old = ''helper()'', sc_new = ''helper(x)''\<rparr>]\<rparr>"

definition graph_ab_changed :: dependency_graph where
  "graph_ab_changed = [(''A.py'', entry_a_changed), (''B.py'', entry_b)]"








text \<open>Three files importing each other in a ring, in a chain, and by longer identifiers.\<close>

definition imports_only :: "string list \<Rightarrow> graph_entry" where
  "imports_only is = \<lparr>e_imports = is, e_definitions = [], e_calls = [],
      e_language = ''python'', e_signature_changes = []\<rparr>"

definition graph_cycle :: dependency_graph where
  "graph_cycle = [(''a.py'', imports_only [''b'']), (''b.py'', imports_only [''c'']),
                  (''c.py'', imports_only [''a''])]"

definition graph_chain :: dependency_graph where
  "graph_chain = [(''a.py'', imports_only [''b'']), (''b.py'', imports_only [''c'']),
                  (''c.py'', imports_only [])]"

definition graph_xyz :: dependency_graph where
  "graph_xyz = [(''x.py'', imports_only [''yy'']), (''y.py'', imports_only [''zz'']),
                  (''z.py'', imports_only [''xx''])]"





text \<open>
  A project with one file in a subdirectory; a state before any scan and a state whose last
  scan saw the root directory at its present modification time.
\<close>

definition example_lib :: py_lib where
  "example_lib = \<lparr>md5_hexdigest = (\<lambda>content. ''md5:'' @ content),
                   size_mtime_str = (\<lambda>size mtime. ''size_mtime'')\<rparr>"

definition dir_sub :: fs_file where
  "dir_sub = \<lparr>rel_parts = [''sub''], is_file = False, stat = Some (4096, 12),
              read_bytes = None\<rparr>"

definition file_new :: fs_file where
  "file_new = \<lparr>rel_parts = [''sub'', ''new.py''], is_file = True, stat = Some (6, 12),
               read_bytes = Some ''x = 1''\<rparr>"

definition fs_sub :: file_system where
  "fs_sub = \<lparr>root_parts = [''/'', ''proj''], root_mtime = Some 10,
             entries = [dir_sub, file_new]\<rparr>"

definition st_fresh :: orchestrator where
  "st_fresh = \<lparr>last_scan_mtime = None, last_run = None, file_hashes = Map.empty\<rparr>"

definition st_scanned :: orchestrator where
  "st_scanned = \<lparr>last_scan_mtime = Some 10, last_run = Some 11, file_hashes = Map.empty\<rparr>"

text \<open>A project whose only file cannot be read.\<close>

definition file_secret :: fs_file where
  "file_secret = \<lparr>rel_parts = [''secret.txt''], is_file = True, stat = Some (20, 3),
                  read_bytes = None\<rparr>"

definition fs_secret :: "real \<Rightarrow> file_system" where
  "fs_secret t = \<lparr>root_parts = [''/'', ''proj''], root_mtime = Some t,
                  entries = [file_secret]\<rparr>"

definition st_after_error :: orchestrator where
  "st_after_error = \<lparr>last_scan_mtime = Some 5, last_run = None,
                      file_hashes = [''secret.txt'' \<mapsto> ''error'']\<rparr>"


text \<open>Lock objects and lock records.\<close>

definition no_lock_file :: lock_file where
  "no_lock_file = \<lparr>linked = None, inode_lines = (\<lambda>i. []), flock_owner = (\<lambda>i. None),
                    next_inode = 0\<rparr>"

definition lock_a :: agent_lock where "lock_a = \<lparr>lock_id = 1, fd = None\<rparr>"
definition lock_b :: agent_lock where "lock_b = \<lparr>lock_id = 2, fd = None\<rparr>"
definition lock_c :: agent_lock where "lock_c = \<lparr>lock_id = 3, fd = None\<rparr>"

definition stamp_a :: stamp where "stamp_a = \<lparr>pid_text = ''4001'', time_text = ''100''\<rparr>"
definition stamp_b :: stamp where "stamp_b = \<lparr>pid_text = ''4002'', time_text = ''100''\<rparr>"
definition stamp_c :: stamp where "stamp_c = \<lparr>pid_text = ''4003'', time_text = ''100''\<rparr>"

definition example_float :: "string \<Rightarrow> real option" where
  "example_float t =
     (if t = ''100'' then Some 100 else if t = ''900'' then Some 900 else None)"

definition record_at :: "string list \<Rightarrow> nat option \<Rightarrow> lock_file" where
  "record_at ls owner =
     \<lparr>linked = Some 0, inode_lines = (\<lambda>i. if i = 0 then ls else []),
      flock_owner = (\<lambda>i. if i = 0 then owner else None), next_inode = 1\<rparr>"

definition lock_dir :: "(string \<times> lock_file) list" where
  "lock_dir =
     [(''john'', record_at [''4001'' @ [CHR 0x0A], ''100'' @ [CHR 0x0A]] None),
      (''george'', record_at [''4002'' @ [CHR 0x0A], ''900'' @ [CHR 0x0A]] None),
      (''pete'', record_at [''4003'' @ [CHR 0x0A], ''100'' @ [CHR 0x0A]] (Some 7)),
      (''marie'', record_at [] None)]"

section \<open>Substrings of joined strings\<close>

lemma sublist_through_char:
  assumes "sublist p (xs @ c # ys)" and "c \<notin> set p"
  shows "sublist p xs \<or> sublist p ys"
proof -
  from assms(1) consider "sublist p xs" | "sublist p (c # ys)"
    | xs1 xs2 where "p = xs1 @ xs2" "suffix xs1 xs" "prefix xs2 (c # ys)"
    unfolding sublist_append by blast
  then show ?thesis
  proof cases
    case 1
    then show ?thesis by simp
  next
    case 2
    then have "prefix p (c # ys) \<or> sublist p ys" by (simp add: sublist_Cons_right)
    with assms(2) show ?thesis by (cases p) auto
  next
    case 3
    show ?thesis
    proof (cases xs2)
      case Nil
      with 3 show ?thesis by auto
    next
      case (Cons x xs2')
      with 3 have "x = c" by simp
      with Cons 3 assms(2) show ?thesis by simp
    qed
  qed
qed

lemma sublist_skip_sep:
  assumes "set sep \<inter> set p = {}" and "p \<noteq> []" and "sublist p (sep @ ys)"
  shows "sublist p ys"
  using assms
proof (induction sep)
  case Nil
  then show ?case by simp
next
  case (Cons c sep)
  from Cons.prems have "sublist p ([] @ c # (sep @ ys))" and "c \<notin> set p" by auto
  then have "sublist p [] \<or> sublist p (sep @ ys)" by (rule sublist_through_char)
  with Cons show ?case by auto
qed

lemma sublist_join:
  assumes "set sep \<inter> set p = {}" and "p \<noteq> []" and "sep \<noteq> []"
  shows "sublist p (join sep ns) \<Longrightarrow> list_ex (sublist p) ns"
proof (induction ns)
  case Nil
  with assms show ?case by simp
next
  case (Cons x ns)
  show ?case
  proof (cases ns)
    case Nil
    with Cons.prems show ?thesis by simp
  next
    case (Cons y ys)
    obtain c sep' where sep: "sep = c # sep'" using assms(3) by (cases sep) auto
    with assms(1) have c: "c \<notin> set p" and sep': "set sep' \<inter> set p = {}" by auto
    from Cons.prems Cons sep have "sublist p (x @ c # (sep' @ join sep ns))" by simp
    then have "sublist p x \<or> sublist p (sep' @ join sep ns)"
      using c by (rule sublist_through_char)
    then have "sublist p x \<or> sublist p (join sep ns)"
      using sublist_skip_sep [OF sep' assms(2)] by blast
    with Cons.IH show ?thesis by auto
  qed
qed

lemma modified_in_join:
  "sublist ''modified'' (join '', '' ns) \<Longrightarrow> list_ex (sublist ''modified'') ns"
  by (rule sublist_join) auto

lemma modified_in_calls:
  assumes "sublist ''modified'' (''calls: '' @ rest)"
  shows "sublist ''modified'' rest"
proof -
  have "sublist ''modified'' (''calls:'' @ CHR '' '' # rest)" using assms by simp
  then have "sublist ''modified'' ''calls:'' \<or> sublist ''modified'' rest"
    by (rule sublist_through_char) simp
  moreover have "\<not> sublist ''modified'' ''calls:''" by (auto dest: sublist_length_le)
  ultimately show ?thesis by simp
qed

lemma not_modified_imports: "\<not> sublist ''modified'' ''imports''"
  by (auto dest: sublist_length_le)

section \<open>Impact analysis: properties\<close>

lemma impact_loop_keys:
  "fst ` set (impact_loop cf names scs g acc) \<subseteq> fst ` set acc \<union> (fst ` set g - {cf})"
proof (induction g arbitrary: acc)
  case Nil
  show ?case by simp
next
  case (Cons a g)
  obtain fp data where a: "a = (fp, data)" by (cases a)
  show ?case
  proof (cases "fp = cf")
    case True
    with Cons.IH [of acc] a show ?thesis by auto
  next
    case False
    let ?rs = "file_reasons cf names scs data"
    show ?thesis
    proof (cases "?rs = []")
      case True
      with Cons.IH [of acc] a False show ?thesis by auto
    next
      case nonempty: False
      let ?acc' = "AList.update fp \<lparr>reasons = ?rs, severity = severity_of ?rs\<rparr> acc"
      have "fst ` set ?acc' = {fp} \<union> fst ` set acc" by (rule AList.dom_update)
      with Cons.IH [of ?acc'] a False nonempty show ?thesis
        by (auto simp: Let_def)
    qed
  qed
qed

lemma impact_loop_not_changed:
  "(cf, e) \<notin> set (impact_loop cf names scs g [])"
  using impact_loop_keys [of cf names scs g "[]"] by force

text \<open>
  C10. For every changed path and every graph, the impact dict returned by
  \<open>find_impacted_files\<close> has no entry whose key is the changed path itself.
\<close>

theorem find_impacted_files_excludes_changed:
  "changed_file \<notin> fst ` set (fst (find_impacted_files parse g changed_file))"
  unfolding find_impacted_files_def Let_def
  by (auto simp: impact_loop_not_changed)

lemma impact_loop_other:
  "fp \<notin> fst ` set g \<Longrightarrow> map_of (impact_loop cf names scs g acc) fp = map_of acc fp"
proof (induction g arbitrary: acc)
  case Nil
  show ?case by simp
next
  case (Cons a g)
  obtain k d where a: "a = (k, d)" by (cases a)
  with Cons.prems have k: "k \<noteq> fp" and rest: "fp \<notin> fst ` set g" by auto
  show ?case
    using Cons.IH [OF rest] k a by (simp add: Let_def update_conv')
qed

lemma impact_loop_lookup:
  assumes "distinct (map fst g)" and "map_of g fp = Some data" and "fp \<noteq> cf"
    and "file_reasons cf names scs data \<noteq> []"
  shows "map_of (impact_loop cf names scs g acc) fp =
           Some \<lparr>reasons = file_reasons cf names scs data,
                 severity = severity_of (file_reasons cf names scs data)\<rparr>"
  using assms(1,2)
proof (induction g arbitrary: acc)
  case Nil
  then show ?case by simp
next
  case (Cons a g)
  obtain k d where a: "a = (k, d)" by (cases a)
  show ?case
  proof (cases "k = fp")
    case True
    with Cons.prems a have d: "d = data" and rest: "fp \<notin> fst ` set g" by auto
    show ?thesis
      using a True d assms(3,4) impact_loop_other [OF rest]
      by (simp add: Let_def update_conv')
  next
    case False
    with Cons.prems a have "distinct (map fst g)" "map_of g fp = Some data" by auto
    from Cons.IH [OF this] a show ?thesis by (simp add: Let_def)
  qed
qed


lemma helper_in_called:
  "helper \<in> set names \<Longrightarrow> helper \<in> set (e_calls data) \<Longrightarrow>
   helper \<in> set (called_funcs names data)"
  by (simp add: called_funcs_def)

lemma set_called_funcs: "set (called_funcs names data) = set names \<inter> set (e_calls data)"
  by (auto simp: called_funcs_def)

lemma calls_modified_is_modified: "str_in ''modified'' (''calls_modified: '' @ rest)"
proof -
  have "''calls_modified: '' @ rest = ''calls_'' @ ''modified'' @ ('': '' @ rest)" by simp
  then show ?thesis unfolding str_in_def by (simp only: sublist_appendI)
qed

lemma severity_calls_modified:
  "''calls_modified: '' @ rest \<in> set rs \<Longrightarrow> severity_of rs = ''high''"
  unfolding severity_of_def list_ex_iff using calls_modified_is_modified by auto

lemma severity_plain_calls:
  assumes "\<not> list_ex (str_in ''modified'') called"
    and "set rs \<subseteq> {''imports'', ''calls: '' @ join '', '' called}"
  shows "severity_of rs = ''medium''"
proof -
  have "\<not> str_in ''modified'' r" if "r \<in> set rs" for r
  proof
    assume m: "str_in ''modified'' r"
    from that assms(2) consider "r = ''imports''" | "r = ''calls: '' @ join '', '' called"
      by auto
    then show False
    proof cases
      case 1
      with m not_modified_imports show False by (simp add: str_in_def)
    next
      case 2
      with m have "sublist ''modified'' (join '', '' called)"
        unfolding str_in_def by (simp only: modified_in_calls)
      then have "list_ex (sublist ''modified'') called" by (rule modified_in_join)
      with assms(1) show False by (simp add: str_in_def [abs_def])
    qed
  qed
  then show ?thesis by (auto simp: severity_of_def list_ex_iff)
qed

text \<open>
  C1 (as amended). Let the graph know \<open>A\<close> with a definition named \<open>helper\<close> and another
  file \<open>B\<close> whose call targets include \<open>helper\<close>. Then \<open>find_impacted_files A\<close> has an
  entry for \<open>B\<close>. With \<open>called\<close> the names that \<open>B\<close> calls and \<open>A\<close> defines (\<open>helper\<close> is
  one of them) and \<open>modified\<close> those of them in \<open>A\<close>'s signature-change list: when
  \<open>modified\<close> is empty the reasons include \<open>calls: <called>\<close>, and the severity is
  \<open>medium\<close> unless one of the called names contains the text \<open>modified\<close>; when it is
  not empty the reasons include \<open>calls_modified: <modified>\<close> (which names \<open>helper\<close>
  exactly when the signature of \<open>helper\<close> is one of those that changed) and the severity
  is \<open>high\<close>.
\<close>

theorem find_impacted_files_calls:
  assumes "distinct (map fst g)"
    and "map_of g A = Some a" and "map_of g B = Some b" and "B \<noteq> A"
    and "helper \<in> set (map name (e_definitions a))" and "helper \<in> set (e_calls b)"
  shows "\<exists>entry called modified.
           map_of (fst (find_impacted_files parse g A)) B = Some entry \<and>
           set called = set (map name (e_definitions a)) \<inter> set (e_calls b) \<and>
           set modified = set called \<inter> set (map sc_name (e_signature_changes a)) \<and>
           helper \<in> set called \<and>
           (if modified = []
            then ''calls: '' @ join '', '' called \<in> set (reasons entry) \<and>
                 (list_ex (str_in ''modified'') called \<or> severity entry = ''medium'')
            else ''calls_modified: '' @ join '', '' modified \<in> set (reasons entry) \<and>
                 severity entry = ''high'')"
proof -
  let ?names = "map name (e_definitions a)"
  let ?scs = "e_signature_changes a"
  let ?called = "called_funcs ?names b"
  let ?modified = "filter (\<lambda>n. n \<in> set (map sc_name ?scs)) ?called"
  let ?rs = "file_reasons A ?names ?scs b"
  let ?entry = "\<lparr>reasons = ?rs, severity = severity_of ?rs\<rparr>"
  have called: "helper \<in> set ?called" using assms(5,6) by (rule helper_in_called)
  then have ne: "?called \<noteq> []" by auto
  then have rs_ne: "?rs \<noteq> []" by (simp add: file_reasons_def Let_def)
  have find: "fst (find_impacted_files parse g A) = impact_loop A ?names ?scs g []"
    using assms(2) by (simp add: find_impacted_files_def Let_def)
  have lookup: "map_of (fst (find_impacted_files parse g A)) B = Some ?entry"
    unfolding find using assms(1,3,4) rs_ne by (rule impact_loop_lookup)
  have sets: "set ?called = set ?names \<inter> set (e_calls b)" by (rule set_called_funcs)
  have mods: "set ?modified = set ?called \<inter> set (map sc_name ?scs)" by auto
  have tail: "if ?modified = []
     then ''calls: '' @ join '', '' ?called \<in> set (reasons ?entry) \<and>
          (list_ex (str_in ''modified'') ?called \<or> severity ?entry = ''medium'')
     else ''calls_modified: '' @ join '', '' ?modified \<in> set (reasons ?entry) \<and>
          severity ?entry = ''high''"
  proof (cases "?modified = []")
    case True
    then have rs: "set ?rs \<subseteq> {''imports'', ''calls: '' @ join '', '' ?called}"
      and mem: "''calls: '' @ join '', '' ?called \<in> set ?rs"
      using ne by (auto simp: file_reasons_def Let_def)
    show ?thesis using True mem severity_plain_calls [OF _ rs] by auto
  next
    case False
    then have mem: "''calls_modified: '' @ join '', '' ?modified \<in> set ?rs"
      using ne by (auto simp: file_reasons_def Let_def)
    show ?thesis using False mem severity_calls_modified [OF mem] by simp
  qed
  from lookup sets mods called tail show ?thesis by blast
qed


theorem find_impacted_files_calls_witness:
  "distinct (map fst graph_ab) \<and> map_of graph_ab ''A.py'' = Some entry_a \<and>
   map_of graph_ab ''B.py'' = Some entry_b \<and> ''B.py'' \<noteq> ''A.py'' \<and>
   ''helper'' \<in> set (map name (e_definitions entry_a)) \<and>
   ''helper'' \<in> set (e_calls entry_b) \<and>
   (\<exists>entry called modified.
      map_of (fst (find_impacted_files no_parse graph_ab ''A.py'')) ''B.py'' = Some entry \<and>
      set called = set (map name (e_definitions entry_a)) \<inter> set (e_calls entry_b) \<and>
      set modified = set called \<inter> set (map sc_name (e_signature_changes entry_a)) \<and>
      ''helper'' \<in> set called \<and>
      (if modified = []
       then ''calls: '' @ join '', '' called \<in> set (reasons entry) \<and>
            (list_ex (str_in ''modified'') called \<or> severity entry = ''medium'')
       else ''calls_modified: '' @ join '', '' modified \<in> set (reasons entry) \<and>
            severity entry = ''high''))"
proof -
  have h1: "distinct (map fst graph_ab)" by (simp add: graph_ab_def)
  have h2: "map_of graph_ab ''A.py'' = Some entry_a" by (simp add: graph_ab_def)
  have h3: "map_of graph_ab ''B.py'' = Some entry_b" by (simp add: graph_ab_def)
  have h4: "''B.py'' \<noteq> ''A.py''" by simp
  have h5: "''helper'' \<in> set (map name (e_definitions entry_a))"
    by (simp add: entry_a_def def_helper_def)
  have h6: "''helper'' \<in> set (e_calls entry_b)" by (simp add: entry_b_def)
  from find_impacted_files_calls [OF h1 h2 h3 h4 h5 h6, of no_parse] h1 h2 h3 h4 h5 h6
  show ?thesis by blast
qed

lemma find_impacted_files_examples:
  "fst (find_impacted_files no_parse graph_ab ''A.py'') =
     [(''B.py'', \<lparr>reasons = [''calls: helper''], severity = ''medium''\<rparr>)]"
  "fst (find_impacted_files no_parse graph_ab_changed ''A.py'') =
     [(''B.py'', \<lparr>reasons = [''calls_modified: helper''], severity = ''high''\<rparr>)]"
  by (simp_all add: find_impacted_files_def graph_ab_def graph_ab_changed_def entry_a_def
      entry_a_changed_def entry_b_def def_helper_def file_reasons_def called_funcs_def
      severity_of_def str_in_def Let_def path_stem_def path_name_def path_parts_def
      has_suffix_def lower_def sublist_code prefix_code)

text \<open>
  The claim as written fails when another called function changed its signature:
  \<open>helper\<close> is defined in \<open>A.py\<close>, called in \<open>B.py\<close> and unchanged, yet the only reason
  is \<open>calls_modified: other\<close> and the severity is \<open>high\<close>.
\<close>

theorem find_impacted_files_calls_counterexample:
  "map_of graph_ab_other ''A.py'' = Some entry_a_other \<and>
   map_of graph_ab_other ''B.py'' = Some entry_b_other \<and>
   ''helper'' \<in> set (map name (e_definitions entry_a_other)) \<and>
   ''helper'' \<in> set (e_calls entry_b_other) \<and>
   ''helper'' \<notin> set (map sc_name (e_signature_changes entry_a_other)) \<and>
   fst (find_impacted_files no_parse graph_ab_other ''A.py'') =
     [(''B.py'', \<lparr>reasons = [''calls_modified: other''], severity = ''high''\<rparr>)]"
  by (simp add: find_impacted_files_def graph_ab_other_def entry_a_other_def
      entry_b_other_def def_helper_def def_other_def file_reasons_def called_funcs_def
      severity_of_def str_in_def Let_def path_stem_def path_name_def path_parts_def
      has_suffix_def lower_def sublist_code prefix_code)

section \<open>Signature changes: properties\<close>













section \<open>Cycle detection: properties\<close>







lemma visit_targets_done:
  "set ts \<subseteq> v \<Longrightarrow> set ts \<inter> r = {} \<Longrightarrow> visit_targets n g ts (v, r) = Some (False, (v, r))"
  by (induction ts) auto

lemma has_cycle_sink:
  "targets g z = [] \<Longrightarrow>
   has_cycle (Suc n) g z (v, r) = Some (False, (insert z v, insert z r - {z}))"
  by simp

lemma has_cycle_before_sink:
  assumes ty: "set (targets g y) = {z}" and tz: "targets g z = []"
    and "z \<noteq> y" and "z \<notin> v" and "z \<notin> r"
  shows "has_cycle (Suc (Suc n)) g y (v, r) =
           Some (False, (insert z (insert y v), insert y r - {y}))"
proof -
  from ty obtain ts where ts: "targets g y = z # ts" by (cases "targets g y") auto
  with ty have sub: "set ts \<subseteq> {z}" by auto
  have z: "has_cycle (Suc n) g z (insert y v, insert y r) =
      Some (False, (insert z (insert y v), insert y r))"
    using has_cycle_sink [OF tz, of n "insert y v" "insert y r"] assms(3,5) by simp
  have rest: "visit_targets (Suc n) g ts (insert z (insert y v), insert y r) =
      Some (False, (insert z (insert y v), insert y r))"
    using sub assms(3,5) by (intro visit_targets_done) auto
  have "visit_targets (Suc n) g (z # ts) (insert y v, insert y r) =
      Some (False, (insert z (insert y v), insert y r))"
    using assms(3,4) z rest by simp
  then show ?thesis by (simp add: ts)
qed

lemma has_cycle_chain_start:
  assumes tx: "set (targets g x) = {y}" and ty: "set (targets g y) = {z}"
    and tz: "targets g z = []" and "x \<noteq> y" and "y \<noteq> z" and "x \<noteq> z"
  shows "has_cycle (Suc (Suc (Suc n))) g x ({}, {}) = Some (False, ({x, y, z}, {}))"
proof -
  from tx obtain ts where ts: "targets g x = y # ts" by (cases "targets g x") auto
  with tx have sub: "set ts \<subseteq> {y}" by auto
  have y: "has_cycle (Suc (Suc n)) g y ({x}, {x}) = Some (False, ({z, y, x}, {x}))"
    using has_cycle_before_sink [OF ty tz, of "{x}" "{x}" n] assms(4,5,6) by auto
  have rest: "visit_targets (Suc (Suc n)) g ts ({z, y, x}, {x}) = Some (False, ({z, y, x}, {x}))"
    using sub assms(4) by (intro visit_targets_done) auto
  have "visit_targets (Suc (Suc n)) g (y # ts) ({x}, {x}) = Some (False, ({z, y, x}, {x}))"
    using assms(4) y rest by simp
  moreover have "{z, y, x} = {x, y, z}" by auto
  ultimately show ?thesis by (simp add: ts)
qed

lemma has_cycle_on_cycle:
  assumes tx: "set (targets g x) = {y}" and ty: "set (targets g y) = {z}"
    and tz: "set (targets g z) = {x}" and "x \<noteq> y" and "y \<noteq> z" and "x \<noteq> z"
  shows "\<exists>st. has_cycle (Suc (Suc (Suc n))) g x ({}, {}) = Some (True, st)"
proof -
  from tx obtain tsx where tsx: "targets g x = y # tsx" by (cases "targets g x") auto
  from ty obtain tsy where tsy: "targets g y = z # tsy" by (cases "targets g y") auto
  from tz obtain tsz where tsz: "targets g z = x # tsz" by (cases "targets g z") auto
  have "has_cycle (Suc n) g z ({y, x}, {y, x}) = Some (True, ({z, y, x}, {z, y, x}))"
    by (simp add: tsz)
  then have "has_cycle (Suc (Suc n)) g y ({x}, {x}) = Some (True, ({z, y, x}, {z, y, x}))"
    using assms(4,5,6) by (simp add: tsy)
  then have "has_cycle (Suc (Suc (Suc n))) g x ({}, {}) = Some (True, ({z, y, x}, {z, y, x}))"
    using assms(4) by (simp add: tsx)
  then show ?thesis by blast
qed

lemma detect_loop_first:
  "has_cycle (length g) g node ({}, {}) = Some (True, st) \<Longrightarrow>
   detect_loop g {} (node # rest) = Some True"
  by simp

lemma detect_loop_none:
  "(\<And>node. node \<in> set nodes \<Longrightarrow> \<exists>st. has_cycle (length g) g node ({}, {}) = Some (False, st))
   \<Longrightarrow> detect_loop g {} nodes = Some False"
proof (induction nodes)
  case Nil
  show ?case by simp
next
  case (Cons node nodes)
  from Cons.prems [of node] obtain st where
    "has_cycle (length g) g node ({}, {}) = Some (False, st)" by auto
  moreover have "detect_loop g {} nodes = Some False"
  proof (rule Cons.IH)
    fix n
    assume "n \<in> set nodes"
    then have "n \<in> set (node # nodes)" by simp
    then show "\<exists>st. has_cycle (length g) g n ({}, {}) = Some (False, st)"
      by (rule Cons.prems)
  qed
  ultimately show ?case by simp
qed

lemma three_keys_length:
  assumes "distinct (map fst g)" and "set (map fst g) = {A, B, C}"
    and "A \<noteq> B" and "B \<noteq> C" and "A \<noteq> C"
  shows "length g = Suc (Suc (Suc 0))"
proof -
  have "length g = length (map fst g)" by simp
  also have "\<dots> = card (set (map fst g))" using assms(1) by (simp only: distinct_card)
  also have "\<dots> = 3" using assms(2-5) by simp
  finally show ?thesis by simp
qed

text \<open>
  C4 (as amended). Take the edges that \<open>detect_circular_dependencies\<close> itself follows:
  from \<open>X\<close> to every key \<open>Y\<close> of the graph such that an import identifier of \<open>X\<close> is a
  substring of the path \<open>Y\<close> or equals the stem of \<open>Y\<close>. For every graph of three files
  \<open>A\<close>, \<open>B\<close>, \<open>C\<close> with the edges \<open>A \<rightarrow> B\<close> and \<open>B \<rightarrow> C\<close> from \<open>A\<close> and \<open>B\<close>: when
  the edges from \<open>C\<close> are exactly \<open>C \<rightarrow> A\<close>, detection returns true; when \<open>C\<close> has no
  edge, it returns false.
\<close>

theorem detect_circular_three_nodes:
  assumes "distinct (map fst g)" and "set (map fst g) = {A, B, C}"
    and "A \<noteq> B" and "B \<noteq> C" and "A \<noteq> C"
    and "set (targets g A) = {B}" and "set (targets g B) = {C}"
  shows "(set (targets g C) = {A} \<longrightarrow> detect_circular_dependencies g = Some True) \<and>
         (set (targets g C) = {} \<longrightarrow> detect_circular_dependencies g = Some False)"
proof (intro conjI impI)
  note len = three_keys_length [OF assms(1-5)]
  {
    assume tc: "set (targets g C) = {A}"
    from assms(2) obtain k ks where ks: "map fst g = k # ks" by (cases "map fst g") auto
    with assms(2) have "k \<in> {A, B, C}" by auto
    then have "\<exists>st. has_cycle (length g) g k ({}, {}) = Some (True, st)"
      unfolding len
      using has_cycle_on_cycle [OF assms(6,7) tc assms(3,4,5), of 0]
        has_cycle_on_cycle [OF assms(7) tc assms(6) assms(4) assms(5) [symmetric] assms(3) [symmetric], of 0]
        has_cycle_on_cycle [OF tc assms(6,7) assms(5) [symmetric] assms(3) assms(4) [symmetric], of 0]
      by auto
    then show "detect_circular_dependencies g = Some True"
      unfolding detect_circular_dependencies_def ks by (auto simp: detect_loop_first)
  }
  {
    assume tc: "set (targets g C) = {}"
    then have tc': "targets g C = []" by simp
    have "\<exists>st. has_cycle (length g) g node ({}, {}) = Some (False, st)"
      if "node \<in> set (map fst g)" for node
    proof -
      from that assms(2) consider "node = A" | "node = B" | "node = C" by auto
      then show ?thesis
      proof cases
        case 1
        then show ?thesis
          unfolding len using has_cycle_chain_start [OF assms(6,7) tc' assms(3,4,5), of 0] by simp
      next
        case 2
        then show ?thesis
          unfolding len
          using has_cycle_before_sink [OF assms(7) tc' assms(4) [symmetric], of "{}" "{}" "Suc 0"]
          by simp
      next
        case 3
        then show ?thesis
          unfolding len using has_cycle_sink [OF tc', of "Suc (Suc 0)" "{}" "{}"] by simp
      qed
    qed
    then show "detect_circular_dependencies g = Some False"
      unfolding detect_circular_dependencies_def by (rule detect_loop_none)
  }
qed



lemmas cycle_eval =
  targets_def resolves_def str_in_def imports_only_def path_stem_def path_name_def
  path_parts_def has_suffix_def sublist_code prefix_code

theorem detect_circular_three_nodes_witness:
  "distinct (map fst graph_cycle) \<and>
   set (map fst graph_cycle) = {''a.py'', ''b.py'', ''c.py''} \<and>
   ''a.py'' \<noteq> ''b.py'' \<and> ''b.py'' \<noteq> ''c.py'' \<and> ''a.py'' \<noteq> ''c.py'' \<and>
   set (targets graph_cycle ''a.py'') = {''b.py''} \<and>
   set (targets graph_cycle ''b.py'') = {''c.py''} \<and>
   set (targets graph_cycle ''c.py'') = {''a.py''} \<and>
   detect_circular_dependencies graph_cycle = Some True \<and>
   distinct (map fst graph_chain) \<and>
   set (map fst graph_chain) = {''a.py'', ''b.py'', ''c.py''} \<and>
   set (targets graph_chain ''a.py'') = {''b.py''} \<and>
   set (targets graph_chain ''b.py'') = {''c.py''} \<and>
   set (targets graph_chain ''c.py'') = {} \<and>
   detect_circular_dependencies graph_chain = Some False"
proof -
  have n: "''a.py'' \<noteq> ''b.py''" "''b.py'' \<noteq> ''c.py''" "''a.py'' \<noteq> ''c.py''"
    by simp_all
  have c1: "distinct (map fst graph_cycle)" by (simp add: graph_cycle_def)
  have c2: "set (map fst graph_cycle) = {''a.py'', ''b.py'', ''c.py''}"
    by (simp add: graph_cycle_def)
  have c6: "set (targets graph_cycle ''a.py'') = {''b.py''}"
    by (simp add: graph_cycle_def cycle_eval)
  have c7: "set (targets graph_cycle ''b.py'') = {''c.py''}"
    by (simp add: graph_cycle_def cycle_eval)
  have c8: "set (targets graph_cycle ''c.py'') = {''a.py''}"
    by (simp add: graph_cycle_def cycle_eval)
  have d1: "distinct (map fst graph_chain)" by (simp add: graph_chain_def)
  have d2: "set (map fst graph_chain) = {''a.py'', ''b.py'', ''c.py''}"
    by (simp add: graph_chain_def)
  have d6: "set (targets graph_chain ''a.py'') = {''b.py''}"
    by (simp add: graph_chain_def cycle_eval)
  have d7: "set (targets graph_chain ''b.py'') = {''c.py''}"
    by (simp add: graph_chain_def cycle_eval)
  have d8: "set (targets graph_chain ''c.py'') = {}"
    by (simp add: graph_chain_def cycle_eval)
  from detect_circular_three_nodes [OF c1 c2 n c6 c7] c8
  have cyc: "detect_circular_dependencies graph_cycle = Some True" by blast
  from detect_circular_three_nodes [OF d1 d2 n d6 d7] d8
  have chn: "detect_circular_dependencies graph_chain = Some False" by blast
  from n c1 c2 c6 c7 c8 cyc d1 d2 d6 d7 d8 chn show ?thesis by blast
qed

text \<open>
  The claim as written takes the edges of the impact rule (the stem of the imported file
  is a substring of the import identifier, case ignored). Under that rule \<open>x.py\<close>,
  \<open>y.py\<close> and \<open>z.py\<close> below import each other in a ring and nothing else, and detection
  returns false: no identifier is a substring of a path.
\<close>

theorem detect_circular_impact_rule_counterexample:
  "imports_edge graph_xyz ''x.py'' ''y.py'' \<and> imports_edge graph_xyz ''y.py'' ''z.py'' \<and>
   imports_edge graph_xyz ''z.py'' ''x.py'' \<and>
   \<not> imports_edge graph_xyz ''x.py'' ''x.py'' \<and> \<not> imports_edge graph_xyz ''x.py'' ''z.py'' \<and>
   \<not> imports_edge graph_xyz ''y.py'' ''y.py'' \<and> \<not> imports_edge graph_xyz ''y.py'' ''x.py'' \<and>
   \<not> imports_edge graph_xyz ''z.py'' ''z.py'' \<and> \<not> imports_edge graph_xyz ''z.py'' ''y.py'' \<and>
   detect_circular_dependencies graph_xyz = Some False"
  by (simp add: graph_xyz_def detect_circular_dependencies_def cycle_eval imports_edge_def
      file_reasons_def called_funcs_def lower_def lower_char_def Let_def)

section \<open>Risk level: properties\<close>




section \<open>Change detection: properties\<close>

lemma scan_other:
  "p \<notin> rel_path ` set fs \<Longrightarrow> snd (scan lib base fs (changed, hashes)) p = hashes p"
  by (induction fs arbitrary: changed hashes) (auto simp: Let_def)

lemma scan_entry:
  assumes "distinct (map rel_path fs)" and "f \<in> set fs" and "is_file f"
    and "\<not> skipped (base @ rel_parts f)"
  shows "snd (scan lib base fs (changed, hashes)) (rel_path f) = Some (hash_file lib f)"
  using assms(1,2)
proof (induction fs arbitrary: changed hashes)
  case Nil
  then show ?case by simp
next
  case (Cons a fs)
  show ?case
  proof (cases "a = f")
    case True
    with Cons.prems have "rel_path f \<notin> rel_path ` set fs" by auto
    from scan_other [OF this] True assms(3,4) show ?thesis by (auto simp: Let_def)
  next
    case False
    with Cons.prems have "distinct (map rel_path fs)" "f \<in> set fs" by auto
    from Cons.IH [OF this] show ?thesis by (auto simp: Let_def)
  qed
qed



text \<open>
  C7 (as amended). A run of \<open>get_changed_files\<close> that finds the root directory's
  modification time not greater than the recorded one returns the empty set and leaves
  the cache as it is. A run that finds it greater scans, and afterwards the cache holds,
  for every existing, non-ignored file whose fingerprint can be computed, an entry equal
  to that fingerprint.
\<close>

theorem get_changed_files_snapshot:
  assumes "root_mtime fs = Some t" and "distinct (map rel_path (entries fs))"
  shows "(t \<le> last_scan_time st \<longrightarrow> get_changed_files lib fs st = Inr ({}, st)) \<and>
         (last_scan_time st < t \<longrightarrow>
            (\<exists>changed st'. get_changed_files lib fs st = Inr (changed, st') \<and>
               (\<forall>f \<in> set (entries fs). \<forall>h.
                  is_file f \<and> \<not> skipped (root_parts fs @ rel_parts f) \<and>
                  compute_hash lib f = Inr h \<longrightarrow>
                  file_hashes st' (rel_path f) = Some h)))"
proof (intro conjI impI)
  assume "t \<le> last_scan_time st"
  with assms(1) show "get_changed_files lib fs st = Inr ({}, st)"
    by (simp add: get_changed_files_def last_scan_time_def)
next
  assume lt: "last_scan_time st < t"
  obtain changed hashes where
    sc: "scan lib (root_parts fs) (entries fs) ({}, file_hashes st) = (changed, hashes)"
    by (cases "scan lib (root_parts fs) (entries fs) ({}, file_hashes st)")
  let ?st' = "st\<lparr>last_scan_mtime := Some t, file_hashes := hashes\<rparr>"
  have run: "get_changed_files lib fs st = Inr (changed, ?st')"
    using assms(1) lt sc by (simp add: get_changed_files_def last_scan_time_def)
  have "file_hashes ?st' (rel_path f) = Some h"
    if "f \<in> set (entries fs)" "is_file f" "\<not> skipped (root_parts fs @ rel_parts f)"
      "compute_hash lib f = Inr h" for f h
  proof -
    from scan_entry [OF assms(2) that(1,2,3), of lib "{}" "file_hashes st"] sc
    have "hashes (rel_path f) = Some (hash_file lib f)" by simp
    with that(4) show ?thesis by (simp add: hash_file_def)
  qed
  with run show "\<exists>changed st'. get_changed_files lib fs st = Inr (changed, st') \<and>
               (\<forall>f \<in> set (entries fs). \<forall>h.
                  is_file f \<and> \<not> skipped (root_parts fs @ rel_parts f) \<and>
                  compute_hash lib f = Inr h \<longrightarrow>
                  file_hashes st' (rel_path f) = Some h)"
    by blast
qed

lemmas scan_eval =
  get_changed_files_def last_scan_time_def skipped_def rel_path_def hash_file_def
  compute_hash_def example_lib_def Let_def prefix_code

theorem get_changed_files_snapshot_witness:
  "root_mtime fs_sub = Some 10 \<and> distinct (map rel_path (entries fs_sub)) \<and>
   last_scan_time st_fresh < 10 \<and>
   get_changed_files example_lib fs_sub st_fresh =
     Inr ({[''sub'', ''new.py'']},
          st_fresh\<lparr>last_scan_mtime := Some 10,
                    file_hashes := [''sub/new.py'' \<mapsto> ''md5:x = 1'']\<rparr>) \<and>
   (\<exists>changed st'. get_changed_files example_lib fs_sub st_fresh = Inr (changed, st') \<and>
      file_hashes st' (rel_path file_new) = Some ''md5:x = 1'') \<and>
   10 \<le> last_scan_time st_scanned \<and>
   get_changed_files example_lib fs_sub st_scanned = Inr ({}, st_scanned)"
proof -
  have h1: "root_mtime fs_sub = Some 10" by (simp add: fs_sub_def)
  have h4: "10 \<le> last_scan_time st_scanned" by (simp add: last_scan_time_def st_scanned_def)
  from get_changed_files_snapshot [OF h1, of st_scanned example_lib] h4
  have fast: "distinct (map rel_path (entries fs_sub)) \<Longrightarrow>
      get_changed_files example_lib fs_sub st_scanned = Inr ({}, st_scanned)" by blast
  have h2: "distinct (map rel_path (entries fs_sub))"
    by (simp add: fs_sub_def rel_path_def dir_sub_def file_new_def)
  have h3: "last_scan_time st_fresh < 10" by (simp add: last_scan_time_def st_fresh_def)
  have run: "get_changed_files example_lib fs_sub st_fresh =
     Inr ({[''sub'', ''new.py'']},
          st_fresh\<lparr>last_scan_mtime := Some 10,
                    file_hashes := [''sub/new.py'' \<mapsto> ''md5:x = 1'']\<rparr>)"
    by (simp add: fs_sub_def st_fresh_def dir_sub_def file_new_def scan_eval)
  have f: "file_new \<in> set (entries fs_sub)" "is_file file_new"
    "\<not> skipped (root_parts fs_sub @ rel_parts file_new)"
    "compute_hash example_lib file_new = Inr ''md5:x = 1''"
    by (simp_all add: fs_sub_def file_new_def scan_eval)
  from get_changed_files_snapshot [OF h1 h2, of st_fresh example_lib] h3 f
  have "\<exists>changed st'. get_changed_files example_lib fs_sub st_fresh = Inr (changed, st') \<and>
      file_hashes st' (rel_path file_new) = Some ''md5:x = 1''"
    by blast
  with h1 h2 h3 h4 run fast [OF h2] show ?thesis by blast
qed

text \<open>
  The claim as written includes the fast path: there the cache is not a snapshot. A file
  created in a subdirectory leaves the root directory's modification time alone, the scan
  is skipped, and the new file has no entry.
\<close>

theorem get_changed_files_fast_path_counterexample:
  "get_changed_files example_lib fs_sub st_scanned = Inr ({}, st_scanned) \<and>
   file_new \<in> set (entries fs_sub) \<and> is_file file_new \<and>
   \<not> skipped (root_parts fs_sub @ rel_parts file_new) \<and>
   compute_hash example_lib file_new = Inr ''md5:x = 1'' \<and>
   file_hashes st_scanned (rel_path file_new) = None"
  by (simp add: fs_sub_def st_scanned_def dir_sub_def file_new_def scan_eval)


text \<open>
  C8. The code at the failing input: \<open>secret.txt\<close> cannot be read. The first scan
  reports it and stores \<open>error\<close> as its hash; the next scan (the root directory has
  changed again, the file still cannot be read) compares \<open>error\<close> with \<open>error\<close> and
  returns the empty set.
\<close>

theorem get_changed_files_unreadable_twice:
  "compute_hash example_lib file_secret = Inl OSError \<and>
   get_changed_files example_lib (fs_secret 5) st_fresh =
     Inr ({[''secret.txt'']}, st_after_error) \<and>
   get_changed_files example_lib (fs_secret 6) st_after_error =
     Inr ({}, st_after_error\<lparr>last_scan_mtime := Some 6\<rparr>)"
  by (simp add: fs_secret_def st_fresh_def st_after_error_def file_secret_def scan_eval)


section \<open>Timeout: properties\<close>

lemma get_changed_files_root:
  "get_changed_files lib fs st = Inr (c, s) \<Longrightarrow> \<exists>t. root_mtime fs = Some t"
  by (cases "root_mtime fs") (auto simp: get_changed_files_def)





lemma get_adaptive_timeout_tiers:
  "project_file_count fs1 \<le> project_file_count fs2 \<Longrightarrow>
   get_adaptive_timeout fs1 \<le> get_adaptive_timeout fs2"
  by (simp add: get_adaptive_timeout_def Let_def TIMEOUT_SMALL_def TIMEOUT_MEDIUM_def
      TIMEOUT_LARGE_def)





section \<open>The agent lock: properties\<close>

lemma cleanup_one_reclaims:
  "cleanup_one float_of now max_age s =
     (if reclaimable float_of now max_age s then s\<lparr>linked := None\<rparr> else s)"
proof (cases "linked s")
  case None
  then show ?thesis by (simp add: cleanup_one_def reclaimable_def)
next
  case (Some i)
  show ?thesis
  proof (cases "flock_owner s i")
    case owner: (Some owner)
    with Some show ?thesis
      by (simp add: cleanup_one_def reclaimable_def has_live_holder_def)
  next
    case None
    show ?thesis
    proof (cases "inode_lines s i")
      case Nil
      with Some None show ?thesis
        by (simp add: cleanup_one_def reclaimable_def has_live_holder_def recorded_time_def)
    next
      case (Cons l1 ls)
      with Some None show ?thesis
        by (cases ls)
           (auto simp: cleanup_one_def reclaimable_def has_live_holder_def recorded_time_def
              Let_def split: option.splits)
    qed
  qed
qed

text \<open>
  C6. Reclamation with threshold \<open>max_age\<close> unlinks exactly the records that have no
  live holder (the probe succeeds) and whose recorded age exceeds \<open>max_age\<close>, and
  changes nothing else: a record with a live holder, a record that is not older than the
  threshold and a record without a readable time are left as they are.
\<close>

theorem cleanup_stale_locks_exact:
  "cleanup_stale_locks float_of now max_age locks =
     map (\<lambda>(worker, s).
            (worker, if reclaimable float_of now max_age s then s\<lparr>linked := None\<rparr> else s))
       locks \<and>
   list_all (\<lambda>(worker, s).
        has_live_holder s \<or>
        (case recorded_time float_of s of None \<Rightarrow> True | Some t \<Rightarrow> now - t \<le> max_age) \<longrightarrow>
        cleanup_one float_of now max_age s = s) locks"
proof -
  have "cleanup_one float_of now max_age s = s"
    if "has_live_holder s \<or>
        (case recorded_time float_of s of None \<Rightarrow> True | Some t \<Rightarrow> now - t \<le> max_age)" for s
    using that by (auto simp: cleanup_one_reclaims reclaimable_def split: option.splits)
  then show ?thesis
    by (simp add: cleanup_stale_locks_def cleanup_one_reclaims list_all_iff split: prod.splits)
qed

lemmas cleanup_eval =
  cleanup_stale_locks_def cleanup_one_def lock_dir_def record_at_def example_float_def
  strip_def is_space_def has_live_holder_def recorded_time_def reclaimable_def

theorem cleanup_stale_locks_exact_witness:
  "reclaimable example_float 1000 600 (record_at [''4001'' @ [CHR 0x0A], ''100'' @ [CHR 0x0A]] None) \<and>
   \<not> reclaimable example_float 1000 600 (record_at [''4002'' @ [CHR 0x0A], ''900'' @ [CHR 0x0A]] None) \<and>
   has_live_holder (record_at [''4003'' @ [CHR 0x0A], ''100'' @ [CHR 0x0A]] (Some 7)) \<and>
   recorded_time example_float (record_at [] None) = None \<and>
   cleanup_stale_locks example_float 1000 600 lock_dir =
     [(''john'', (record_at [''4001'' @ [CHR 0x0A], ''100'' @ [CHR 0x0A]] None)\<lparr>linked := None\<rparr>),
      (''george'', record_at [''4002'' @ [CHR 0x0A], ''900'' @ [CHR 0x0A]] None),
      (''pete'', record_at [''4003'' @ [CHR 0x0A], ''100'' @ [CHR 0x0A]] (Some 7)),
      (''marie'', record_at [] None)]"
proof -
  have a: "reclaimable example_float 1000 600
      (record_at [''4001'' @ [CHR 0x0A], ''100'' @ [CHR 0x0A]] None)"
    and b: "\<not> reclaimable example_float 1000 600
      (record_at [''4002'' @ [CHR 0x0A], ''900'' @ [CHR 0x0A]] None)"
    and c: "has_live_holder (record_at [''4003'' @ [CHR 0x0A], ''100'' @ [CHR 0x0A]] (Some 7))"
    and d: "recorded_time example_float (record_at [] None) = None"
    by (simp_all add: cleanup_eval)
  have c': "\<not> reclaimable example_float 1000 600
      (record_at [''4003'' @ [CHR 0x0A], ''100'' @ [CHR 0x0A]] (Some 7))"
    using c by (simp add: reclaimable_def)
  have d': "\<not> reclaimable example_float 1000 600 (record_at [] None)"
    using d by (simp add: reclaimable_def)
  from cleanup_stale_locks_exact [of example_float 1000 600 lock_dir]
  have "cleanup_stale_locks example_float 1000 600 lock_dir =
     map (\<lambda>(worker, s).
            (worker, if reclaimable example_float 1000 600 s then s\<lparr>linked := None\<rparr> else s))
       lock_dir" by (rule conjunct1)
  with a b c' d' have "cleanup_stale_locks example_float 1000 600 lock_dir =
     [(''john'', (record_at [''4001'' @ [CHR 0x0A], ''100'' @ [CHR 0x0A]] None)\<lparr>linked := None\<rparr>),
      (''george'', record_at [''4002'' @ [CHR 0x0A], ''900'' @ [CHR 0x0A]] None),
      (''pete'', record_at [''4003'' @ [CHR 0x0A], ''100'' @ [CHR 0x0A]] (Some 7)),
      (''marie'', record_at [] None)]"
    by (simp add: lock_dir_def)
  with a b c d show ?thesis by blast
qed


lemmas lock_steps =
  step_two_def step_acquire_def acquire_open_def acquire_flock_def acquire_write_def
  close_fd_def start_two_def holds_def one_winner_def at_most_one_holder_def Let_def




lemma acquire_as_steps:
  "acquire st L s = (ok, L', s') \<Longrightarrow>
   (case step_acquire st \<lparr>obj = L, pos = Ready\<rparr> s of
      (a1, s1) \<Rightarrow>
        (case step_acquire st a1 s1 of
           (a2, s2) \<Rightarrow> step_acquire st a2 s2)) = (\<lparr>obj = L', pos = Done ok\<rparr>, s')"
  by (auto simp: acquire_def step_acquire_def split: prod.splits bool.splits)




text \<open>
  The theorem is about two acquirers on a lock that nobody holds or is about to give up.
  It does not extend to a holder that releases in between: \<open>release\<close> unlinks the path
  after it has unlocked, so an \<open>acquire\<close> that opened the file before the \<open>unlink\<close>
  locks the old inode, and an \<open>acquire\<close> that comes after it creates and locks a new
  one. Below, \<open>a\<close> holds the lock, \<open>b\<close> opens the file, \<open>a\<close> releases, \<open>b\<close> locks,
  \<open>c\<close> acquires, \<open>b\<close> writes: all three calls return \<open>True\<close>, and \<open>b\<close> and \<open>c\<close>
  both hold a lock in the end.
\<close>

lemma release_race_two_holders:
  "(case acquire stamp_a lock_a no_lock_file of
      (ok_a, La, s1) \<Rightarrow>
        (case acquire_open lock_b s1 of
           (Lb, s2) \<Rightarrow>
             (case release La s2 of
                (La', s3) \<Rightarrow>
                  (case acquire_flock Lb s3 of
                     (ok_b, Lb', s4) \<Rightarrow>
                       (case acquire stamp_c lock_c s4 of
                          (ok_c, Lc, s5) \<Rightarrow>
                            (let s6 = acquire_write stamp_b Lb' s5 in
                             ok_a \<and> ok_b \<and> ok_c \<and>
                             holds \<lparr>obj = Lb', pos = Done True\<rparr> s6 \<and>
                             holds \<lparr>obj = Lc, pos = Done True\<rparr> s6))))))"
  by (simp add: acquire_def release_def release_unlock_def release_unlink_def lock_steps
      no_lock_file_def lock_a_def lock_b_def lock_c_def)

end
